theory Spec2Isabelle
  imports Complex_Main
begin

section \<open>Python values used by the evaluation code\<close>

text \<open>
  The exceptions the modelled code can raise. A function that may raise returns
  \<open>error + 'a\<close>, with \<open>Inl\<close> for the exception.
\<close>

datatype error =
    RuntimeError
  | NotImplementedError
  | ZeroDivisionError
  | KeyError
  | AssertionError
  | AttributeError
  | IndexError
  | TypeError

text \<open>
  A Python \<open>str\<close> is a \<open>string\<close>: a list of characters, one \<open>char\<close> per code point,
  for the code points below 256. \<open>is_space\<close> is \<open>str.isspace\<close> on one character of that
  range: the whitespace that \<open>str.split()\<close> and \<open>str.strip()\<close> recognise.
\<close>

definition is_space :: "char \<Rightarrow> bool" where
  "is_space c \<longleftrightarrow>
     c \<in> set [CHR 0x09, CHR 0x0A, CHR 0x0B, CHR 0x0C, CHR 0x0D,
              CHR 0x1C, CHR 0x1D, CHR 0x1E, CHR 0x1F, CHR 0x20, CHR 0x85, CHR 0xA0]"

text \<open>\<open>s.strip()\<close>: leading and trailing whitespace removed.\<close>

definition strip :: "string \<Rightarrow> string" where
  "strip s = rev (dropWhile is_space (rev (dropWhile is_space s)))"

text \<open>
  \<open>s.split()\<close>: the maximal runs of non-whitespace characters, in order. The first
  argument is the word being read.
\<close>

fun split_ws :: "string \<Rightarrow> string \<Rightarrow> string list" where
  "split_ws cur [] = (if cur = [] then [] else [cur])"
| "split_ws cur (c # cs) =
     (if is_space c then (if cur = [] then split_ws [] cs else cur # split_ws [] cs)
      else split_ws (cur @ [c]) cs)"

definition split :: "string \<Rightarrow> string list" where
  "split s = split_ws [] s"

text \<open>
  \<open>s.split(d)\<close> for a one-character separator \<open>d\<close>: the pieces between the occurrences
  of \<open>d\<close>, empty pieces kept, so the result is never empty.
\<close>

fun split_char :: "char \<Rightarrow> string \<Rightarrow> string list" where
  "split_char d [] = [[]]"
| "split_char d (c # cs) =
     (if c = d then [] # split_char d cs
      else (c # hd (split_char d cs)) # tl (split_char d cs))"

text \<open>\<open>" ".join(ws)\<close>.\<close>

fun join :: "string list \<Rightarrow> string" where
  "join [] = []"
| "join [w] = w"
| "join (w # v # ws) = w @ '' '' @ join (v # ws)"

text \<open>\<open>s.replace(",", " , ")\<close>.\<close>

definition replace_comma :: "string \<Rightarrow> string" where
  "replace_comma s = concat (map (\<lambda>c. if c = CHR '','' then '' , '' else [c]) s)"

section \<open>\<open>get_split_comma\<close>\<close>

text \<open>
  One pass of the loop \<open>for index in range(len(input_list))\<close>, on the list as the earlier
  passes left it.
\<close>

definition mark_step :: "error + string list \<Rightarrow> nat \<Rightarrow> error + string list" where
  "mark_step r index =
     (case r of
        Inl e \<Rightarrow> Inl e
      | Inr input_list \<Rightarrow>
          if input_list ! index = '',''
          then if count_list (take index input_list) ''(''
                  = count_list (take index input_list) '')''
               then if count_list (drop (index + 1) input_list) ''(''
                       = count_list (drop (index + 1) input_list) '')''
                    then if input_list ! index = ''$''
                         then Inl RuntimeError
                         else Inr (input_list[index := ''$''])
                    else Inr input_list
               else Inr input_list
          else Inr input_list)"

definition get_split_comma :: "string \<Rightarrow> error + string set" where
  "get_split_comma input_str =
     (let input_str = replace_comma input_str;
          input_list = map strip (split input_str)
      in case foldl mark_step (Inr input_list) [0..<length input_list] of
           Inl e \<Rightarrow> Inl e
         | Inr input_list \<Rightarrow>
             let new_str = split_char CHR ''$'' (join input_list)
             in Inr (foldl (\<lambda>result_set str. insert (strip str) result_set) {} new_str))"

section \<open>\<open>is_all_same\<close>\<close>

text \<open>
  The comparison loop of \<open>is_all_same\<close>: \<open>all_same\<close> becomes False at the first index
  where the lists differ, and the loop stops there.
\<close>

fun cmp_loop :: "int list \<Rightarrow> int list \<Rightarrow> nat list \<Rightarrow> bool" where
  "cmp_loop c1 c2 [] = True"
| "cmp_loop c1 c2 (j # js) = (if c1 ! j \<noteq> c2 ! j then False else cmp_loop c1 c2 js)"

text \<open>
  \<open>form_manager\<close> is used only through \<open>get_idx_symbol\<close>, which is the parameter
  \<open>get_idx_symbol\<close> here: the symbol of an index.
\<close>

definition is_all_same :: "int list \<Rightarrow> int list \<Rightarrow> (int \<Rightarrow> string) \<Rightarrow> error + bool" where
  "is_all_same c1 c2 get_idx_symbol =
     (let all_same = (if length c1 = length c2
                      then cmp_loop c1 c2 [0..<length c1] else True)
      in if length c1 = length c2 \<and> all_same then Inr True
         else if length c1 \<noteq> length c2 \<or> all_same = False
         then (let d1 = join (map get_idx_symbol c1);
                   d2 = join (map get_idx_symbol c2)
               in case get_split_comma d1 of
                    Inl e \<Rightarrow> Inl e
                  | Inr s1 \<Rightarrow>
                      (case get_split_comma d2 of
                         Inl e \<Rightarrow> Inl e
                       | Inr s2 \<Rightarrow> if s1 = s2 then Inr True else Inr False))
         else Inl NotImplementedError)"

section \<open>\<open>compute_accuracy\<close> and \<open>compute_tree_accuracy\<close>\<close>

text \<open>
  The counting loop of \<open>compute_accuracy\<close>, over the indices still to visit, with the
  count so far. The division \<open>c/float(len_min)\<close> is the exact quotient, a rational
  (Python returns the float nearest to it), and raises \<open>ZeroDivisionError\<close> when
  \<open>len_min\<close> is 0. The \<open>print\<close> calls are left out.
\<close>

fun count_loop :: "int list list \<Rightarrow> int list list \<Rightarrow> (int \<Rightarrow> string) \<Rightarrow> nat list \<Rightarrow> nat \<Rightarrow> error + nat" where
  "count_loop candidate_list reference_list form_manager [] c = Inr c"
| "count_loop candidate_list reference_list form_manager (i # is) c =
     (case is_all_same (candidate_list ! i) (reference_list ! i) form_manager of
        Inl e \<Rightarrow> Inl e
      | Inr b \<Rightarrow>
          if b then count_loop candidate_list reference_list form_manager is (c + 1)
          else count_loop candidate_list reference_list form_manager is c)"

definition compute_accuracy :: "int list list \<Rightarrow> int list list \<Rightarrow> (int \<Rightarrow> string) \<Rightarrow> error + rat" where
  "compute_accuracy candidate_list reference_list form_manager =
     (let len_min = min (length candidate_list) (length reference_list)
      in case count_loop candidate_list reference_list form_manager [0..<len_min] 0 of
           Inl e \<Rightarrow> Inl e
         | Inr c \<Rightarrow> if len_min = 0 then Inl ZeroDivisionError
                    else Inr (of_nat c / of_nat len_min))"

text \<open>
  \<open>compute_tree_accuracy\<close> copies both lists element by element and calls
  \<open>compute_accuracy\<close> on the copies.
\<close>

definition compute_tree_accuracy :: "int list list \<Rightarrow> int list list \<Rightarrow> (int \<Rightarrow> string) \<Rightarrow> error + rat" where
  "compute_tree_accuracy candidate_list0 reference_list0 form_manager =
     (let candidate_list = foldl (\<lambda>l i. l @ [candidate_list0 ! i]) [] [0..<length candidate_list0];
          reference_list = foldl (\<lambda>l i. l @ [reference_list0 ! i]) [] [0..<length reference_list0]
      in compute_accuracy candidate_list reference_list form_manager)"

section \<open>Splitting at top-level commas, stated on the token list\<close>

text \<open>
  The tokens of a string are what \<open>get_split_comma\<close> splits it into: commas isolated,
  then split at whitespace. A comma token is at top level when the tokens before it hold as
  many \<open>(\<close> as \<open>)\<close>, and so do the tokens after it. The segments of a token list are
  the runs of tokens between the top-level commas: \<open>marks\<close> replaces each top-level
  comma by \<open>None\<close>, and \<open>split_none\<close> cuts the list there.
\<close>

definition tokens :: "string \<Rightarrow> string list" where
  "tokens s = split (replace_comma s)"

definition top_level :: "string list \<Rightarrow> nat \<Rightarrow> bool" where
  "top_level ts i \<longleftrightarrow>
     ts ! i = '','' \<and>
     count_list (take i ts) ''('' = count_list (take i ts) '')'' \<and>
     count_list (drop (Suc i) ts) ''('' = count_list (drop (Suc i) ts) '')''"

definition marks :: "string list \<Rightarrow> string option list" where
  "marks ts = map (\<lambda>i. if top_level ts i then None else Some (ts ! i)) [0..<length ts]"

fun split_none :: "'a option list \<Rightarrow> 'a list list" where
  "split_none [] = [[]]"
| "split_none (None # ms) = [] # split_none ms"
| "split_none (Some x # ms) = (x # hd (split_none ms)) # tl (split_none ms)"

definition top_level_segments :: "string \<Rightarrow> string list list" where
  "top_level_segments s = split_none (marks (tokens s))"

text \<open>
  What \<open>get_split_comma\<close> makes of one segment: the segment joined by single spaces, cut
  again at every \<open>$\<close> character it holds, each piece stripped.
\<close>

definition segment_pieces :: "string list \<Rightarrow> string list" where
  "segment_pieces seg = map strip (split_char CHR ''$'' (join seg))"

text \<open>The segments put back into one token list, with a \<open>$\<close> token between them.\<close>

fun flat :: "string list list \<Rightarrow> string list" where
  "flat [] = []"
| "flat [seg] = seg"
| "flat (seg # segs) = seg @ [''$''] @ flat segs"

text \<open>The token list after the first \<open>k\<close> passes of the marking loop.\<close>

definition marked_upto :: "string list \<Rightarrow> nat \<Rightarrow> string list" where
  "marked_upto ts k = map (\<lambda>i. if i < k \<and> top_level ts i then ''$'' else ts ! i) [0..<length ts]"

text \<open>A word: what \<open>str.split()\<close> returns, non-empty and free of whitespace.\<close>

definition word :: "string \<Rightarrow> bool" where
  "word t \<longleftrightarrow> t \<noteq> [] \<and> (\<forall>c\<in>set t. \<not> is_space c)"

text \<open>
  The set of segments of a string, each joined by single spaces, and equality of two index
  lists up to the order of their segments, as it is claimed of \<open>is_all_same\<close>.
\<close>

definition normalized_segments :: "string \<Rightarrow> string set" where
  "normalized_segments s = join ` set (top_level_segments s)"

definition claimed_all_same :: "int list \<Rightarrow> int list \<Rightarrow> (int \<Rightarrow> string) \<Rightarrow> bool" where
  "claimed_all_same c1 c2 form_manager \<longleftrightarrow>
     c1 = c2 \<or>
     normalized_segments (join (map form_manager c1))
       = normalized_segments (join (map form_manager c2))"

text \<open>The number of indices below \<open>m\<close> at which \<open>is_all_same\<close> holds.\<close>

definition matches :: "int list list \<Rightarrow> int list list \<Rightarrow> (int \<Rightarrow> string) \<Rightarrow> nat \<Rightarrow> nat" where
  "matches candidate_list reference_list form_manager m =
     length (filter (\<lambda>i. is_all_same (candidate_list ! i) (reference_list ! i) form_manager = Inr True)
                    [0..<m])"

text \<open>A small vocabulary for the examples: a, comma, b, \<open>$\<close>, and the unknown token.\<close>

definition abc_symbol :: "int \<Rightarrow> string" where
  "abc_symbol i = (if i = 0 then ''a'' else if i = 1 then '','' else if i = 2 then ''b''
                   else if i = 3 then ''$'' else ''<U>'')"

section \<open>The parenthesis repair in \<open>Jobs.eval\<close>\<close>

text \<open>
  The lines of \<open>Jobs.eval\<close> between decoding and scoring. \<open>count_symbol\<close> is
  \<open>sum(1 for c in candidate if eval_vocab.idx2symbol[int(c)] == symbol)\<close>: the dictionary
  is indexed directly, so an index it does not hold raises \<open>KeyError\<close>.
  \<open>eval_idx2symbol\<close> is \<open>eval_vocab.idx2symbol\<close>.
\<close>

fun count_symbol :: "(int \<rightharpoonup> string) \<Rightarrow> string \<Rightarrow> int list \<Rightarrow> error + nat" where
  "count_symbol idx2symbol symbol [] = Inr 0"
| "count_symbol idx2symbol symbol (c # cs) =
     (case idx2symbol c of
        None \<Rightarrow> Inl KeyError
      | Some s \<Rightarrow>
          (case count_symbol idx2symbol symbol cs of
             Inl e \<Rightarrow> Inl e
           | Inr n \<Rightarrow> Inr ((if s = symbol then 1 else 0) + n)))"

text \<open>
  \<open>self.test_data_loader\<close> is the object that \<open>_build_dataloader\<close> creates with
  \<open>DataLoader(dataset.test, ...)\<close>, the loader class of the tensor library; the loader
  class that carried a \<open>tgt_vocab\<close> is commented out there. \<open>test_data_loader\<close> gives,
  by attribute name, the \<open>symbol2idx\<close> dictionary of each vocabulary the object holds:
  it holds none, so reading \<open>self.test_data_loader.tgt_vocab\<close> raises
  \<open>AttributeError\<close>.
\<close>

definition test_data_loader :: "string \<rightharpoonup> (string \<rightharpoonup> int)" where
  "test_data_loader = Map.empty"

text \<open>
  The loop \<open>for i in range(diff): candidate.append(...)\<close>; each pass reads
  \<open>self.test_data_loader.tgt_vocab.symbol2idx[")"]\<close>.
\<close>

fun append_loop :: "int list \<Rightarrow> nat list \<Rightarrow> error + int list" where
  "append_loop candidate [] = Inr candidate"
| "append_loop candidate (i # is) =
     (case test_data_loader ''tgt_vocab'' of
        None \<Rightarrow> Inl AttributeError
      | Some symbol2idx \<Rightarrow>
          (case symbol2idx '')'' of
             None \<Rightarrow> Inl KeyError
           | Some rp \<Rightarrow> append_loop (candidate @ [rp]) is))"

text \<open>
  The repaired candidate. \<open>candidate[:diff]\<close> with a negative \<open>diff\<close> keeps the first
  \<open>len(candidate) + diff\<close> entries, none when that is negative.
\<close>

definition adjust_parens :: "(int \<rightharpoonup> string) \<Rightarrow> int list \<Rightarrow> error + int list" where
  "adjust_parens eval_idx2symbol candidate =
     (case count_symbol eval_idx2symbol ''('' candidate of
        Inl e \<Rightarrow> Inl e
      | Inr num_left_paren \<Rightarrow>
          (case count_symbol eval_idx2symbol '')'' candidate of
             Inl e \<Rightarrow> Inl e
           | Inr num_right_paren \<Rightarrow>
               let diff = int num_left_paren - int num_right_paren
               in if diff > 0 then append_loop candidate [0..<nat diff]
                  else if diff < 0
                  then Inr (take (nat (int (length candidate) + diff)) candidate)
                  else Inr candidate))"

text \<open>A three-symbol vocabulary for the examples.\<close>

definition paren_idx2symbol :: "int \<rightharpoonup> string" where
  "paren_idx2symbol = [0 \<mapsto> ''('', 1 \<mapsto> '')'', 2 \<mapsto> ''a'']"

section \<open>The vocabulary and \<open>Jobs.prepare_ext_vocab\<close>\<close>

text \<open>
  Modelled from the spec: the class \<open>Vocab\<close> of
  \<open>graph4nlp.pytorch.modules.utils.tree_utils\<close> is not among the source files. The
  source reads its fields \<open>symbol2idx\<close>, \<open>idx2symbol\<close>, \<open>vocab_size\<close> and
  \<open>unk_token\<close>, and the spec calls the extended copy a dynamic per-example vocabulary
  extension for out-of-vocabulary source tokens. A vocabulary is a record of these four
  fields.
\<close>

record vocab =
  symbol2idx :: "string \<rightharpoonup> int"
  idx2symbol :: "int \<rightharpoonup> string"
  vocab_size :: int
  unk_token :: string

text \<open>
  Modelled from the spec: \<open>Vocab.get_symbol_idx\<close>, not among the source files. The index
  of a symbol the vocabulary holds, and the index of the unknown token for any other
  symbol; \<open>KeyError\<close> when the unknown token itself has no index.
\<close>

definition get_symbol_idx :: "vocab \<Rightarrow> string \<Rightarrow> error + int" where
  "get_symbol_idx v s =
     (case symbol2idx v s of
        Some i \<Rightarrow> Inr i
      | None \<Rightarrow> (case symbol2idx v (unk_token v) of Some u \<Rightarrow> Inr u | None \<Rightarrow> Inl KeyError))"

text \<open>
  Modelled from the spec: \<open>Vocab.add_symbol\<close>, not among the source files. A symbol the
  vocabulary does not hold gets the next free index, \<open>vocab_size\<close>, in both
  dictionaries; a symbol it holds changes nothing.
\<close>

definition add_symbol :: "vocab \<Rightarrow> string \<Rightarrow> vocab" where
  "add_symbol v s =
     (if s \<in> dom (symbol2idx v) then v
      else v\<lparr>symbol2idx := (symbol2idx v)(s \<mapsto> vocab_size v),
              idx2symbol := (idx2symbol v)(vocab_size v \<mapsto> s),
              vocab_size := vocab_size v + 1\<rparr>)"

text \<open>
  Vocabularies are objects that \<open>add_symbol\<close> mutates in place, so they live in a store:
  a list of vocabularies, an object's address being its position. \<open>copy.deepcopy\<close>
  allocates a new object with the same field values; the dictionaries are part of the
  value, so the copy shares nothing with the original.
\<close>

type_synonym heap = "vocab list"

definition deepcopy :: "heap \<Rightarrow> nat \<Rightarrow> heap \<times> nat" where
  "deepcopy h a = (h @ [h ! a], length h)"

text \<open>
  An entry of \<open>batch_graph.node_attributes\<close>: its \<open>'token'\<close>, and \<open>n.get('type')\<close>,
  which is \<open>None\<close> when the key is absent. The node features are a dictionary from
  feature names to integer tensors, here lists.
\<close>

record node_attr =
  token :: string
  ntype :: "int option"

record graph =
  node_attributes :: "node_attr list"
  node_features :: "string \<rightharpoonup> int list"

text \<open>
  The loop over the nodes. \<open>oov_dict\<close> is the address of the copy; the second conjunct
  of the \<open>if\<close> is evaluated only when the first holds.
\<close>

fun ext_loop :: "heap \<Rightarrow> nat \<Rightarrow> node_attr list \<Rightarrow> int list \<Rightarrow> error + heap \<times> int list" where
  "ext_loop h oov_dict [] token_matrix = Inr (h, token_matrix)"
| "ext_loop h oov_dict (n # ns) token_matrix =
     (let node_token = token n
      in case (if ntype n = None \<or> ntype n = Some 0
               then (case get_symbol_idx (h ! oov_dict) node_token of
                       Inl e \<Rightarrow> Inl e
                     | Inr a \<Rightarrow>
                         (case get_symbol_idx (h ! oov_dict) (unk_token (h ! oov_dict)) of
                            Inl e \<Rightarrow> Inl e
                          | Inr b \<Rightarrow>
                              Inr (if a = b
                                   then h[oov_dict := add_symbol (h ! oov_dict) node_token]
                                   else h)))
               else Inr h) of
           Inl e \<Rightarrow> Inl e
         | Inr h' \<Rightarrow>
             (case get_symbol_idx (h' ! oov_dict) node_token of
                Inl e \<Rightarrow> Inl e
              | Inr i \<Rightarrow> ext_loop h' oov_dict ns (token_matrix @ [i])))"

definition prepare_ext_vocab :: "heap \<Rightarrow> graph \<Rightarrow> nat \<Rightarrow> error + heap \<times> graph \<times> nat" where
  "prepare_ext_vocab h batch_graph src_vocab =
     (let (h, oov_dict) = deepcopy h src_vocab
      in case ext_loop h oov_dict (node_attributes batch_graph) [] of
           Inl e \<Rightarrow> Inl e
         | Inr (h, token_matrix) \<Rightarrow>
             Inr (h,
                  batch_graph\<lparr>node_features :=
                     (node_features batch_graph)(''token_id_oov'' \<mapsto> token_matrix)\<rparr>,
                  oov_dict))"

text \<open>A later state of a vocabulary: it holds every symbol of the earlier one, with the same index.\<close>

definition extends :: "vocab \<Rightarrow> vocab \<Rightarrow> bool" where
  "extends v v' \<longleftrightarrow> symbol2idx v \<subseteq>\<^sub>m symbol2idx v' \<and> unk_token v' = unk_token v"

text \<open>
  A two-symbol vocabulary, the same vocabulary with foo added, and two graphs for the
  examples.
\<close>

definition unk_vocab :: vocab where
  "unk_vocab = \<lparr>symbol2idx = [''<U>'' \<mapsto> 0, ''a'' \<mapsto> 1],
                idx2symbol = [0 \<mapsto> ''<U>'', 1 \<mapsto> ''a''],
                vocab_size = 2, unk_token = ''<U>''\<rparr>"



definition bar_graph :: graph where
  "bar_graph = \<lparr>node_attributes =
                   [\<lparr>token = ''a'', ntype = None\<rparr>,
                    \<lparr>token = ''foo'', ntype = Some 0\<rparr>,
                    \<lparr>token = ''bar'', ntype = Some 1\<rparr>],
                 node_features = [''token_id'' \<mapsto> [1, 0, 0]]\<rparr>"

text \<open>
  A vocabulary as \<open>add_symbol\<close> builds it: the unknown token has an index, no two
  symbols share an index, and every index is below \<open>vocab_size\<close>.
\<close>

definition wf_vocab :: "vocab \<Rightarrow> bool" where
  "wf_vocab v \<longleftrightarrow>
     unk_token v \<in> dom (symbol2idx v) \<and>
     inj_on (symbol2idx v) (dom (symbol2idx v)) \<and>
     (\<forall>s i. symbol2idx v s = Some i \<longrightarrow> i < vocab_size v)"






text \<open>A node whose \<open>'type'\<close> is absent or 0.\<close>

definition word_node :: "node_attr \<Rightarrow> bool" where
  "word_node n \<longleftrightarrow> ntype n = None \<or> ntype n = Some 0"

text \<open>
  One pass of the loop and the whole loop, on the vocabulary value alone: what
  \<open>ext_loop\<close> does to the object at \<open>oov_dict\<close>.
\<close>

definition visit :: "vocab \<Rightarrow> node_attr \<Rightarrow> error + vocab \<times> int" where
  "visit v n =
     (case (if word_node n
            then (case get_symbol_idx v (token n) of
                    Inl e \<Rightarrow> Inl e
                  | Inr a \<Rightarrow>
                      (case get_symbol_idx v (unk_token v) of
                         Inl e \<Rightarrow> Inl e
                       | Inr b \<Rightarrow> Inr (if a = b then add_symbol v (token n) else v)))
            else Inr v) of
        Inl e \<Rightarrow> Inl e
      | Inr v' \<Rightarrow> (case get_symbol_idx v' (token n) of Inl e \<Rightarrow> Inl e | Inr i \<Rightarrow> Inr (v', i)))"

fun visit_all :: "vocab \<Rightarrow> node_attr list \<Rightarrow> int list \<Rightarrow> error + vocab \<times> int list" where
  "visit_all v [] tm = Inr (v, tm)"
| "visit_all v (n # ns) tm =
     (case visit v n of Inl e \<Rightarrow> Inl e | Inr (v', i) \<Rightarrow> visit_all v' ns (tm @ [i]))"

section \<open>The decoder: \<open>StdRNNDecoder._run_forward_pass\<close>\<close>




































section \<open>Strings: splitting, stripping and joining\<close>

lemma split_char_not_Nil: "split_char d s \<noteq> []"
  by (induction s) auto

lemma split_char_append: "split_char d (xs @ d # ys) = split_char d xs @ split_char d ys"
proof (induction xs)
  case Nil show ?case by simp
next
  case (Cons x xs)
  obtain p ps where "split_char d xs = p # ps"
    using split_char_not_Nil [of d xs] by (cases "split_char d xs") auto
  with Cons show ?case by simp
qed

lemma split_char_absent: "d \<notin> set s \<Longrightarrow> split_char d s = [s]"
  by (induction s) auto

lemma strip_space_Cons: "is_space c \<Longrightarrow> strip (c # s) = strip s"
  by (simp add: strip_def)

lemma strip_space_snoc: "is_space c \<Longrightarrow> strip (s @ [c]) = strip s"
proof (cases "\<forall>x\<in>set s. is_space x")
  case True
  assume "is_space c"
  with True have a: "dropWhile is_space (s @ [c]) = []" and b: "dropWhile is_space s = []"
    by (simp_all add: dropWhile_eq_Nil_conv)
  show ?thesis unfolding strip_def a b by simp
next
  case False
  assume c: "is_space c"
  from False have "dropWhile is_space (s @ [c]) = dropWhile is_space s @ [c]"
    by (auto simp: dropWhile_append1)
  with c show ?thesis by (simp add: strip_def)
qed

lemma split_char_Cons_other:
  "c \<noteq> d \<Longrightarrow> split_char d (c # s) = (c # hd (split_char d s)) # tl (split_char d s)"
  by simp

lemma split_char_snoc_other:
  "c \<noteq> d \<Longrightarrow> split_char d (s @ [c]) = butlast (split_char d s) @ [last (split_char d s) @ [c]]"
proof (induction s)
  case Nil then show ?case by simp
next
  case (Cons x s)
  obtain p ps where e: "split_char d s = p # ps"
    using split_char_not_Nil [of d s] by (cases "split_char d s") auto
  have ne: "split_char d (s @ [c]) \<noteq> []" by (rule split_char_not_Nil)
  show ?case
  proof (cases "x = d")
    case True
    with Cons e show ?thesis by simp
  next
    case False
    with Cons e show ?thesis by (cases ps) auto
  qed
qed

lemma pieces_space_Cons:
  assumes "is_space c" "c \<noteq> d"
  shows "map strip (split_char d (c # s)) = map strip (split_char d s)"
proof -
  obtain p ps where e: "split_char d s = p # ps"
    using split_char_not_Nil [of d s] by (cases "split_char d s") auto
  with assms show ?thesis by (simp add: strip_space_Cons)
qed

lemma pieces_space_snoc:
  assumes "is_space c" "c \<noteq> d"
  shows "map strip (split_char d (s @ [c])) = map strip (split_char d s)"
proof -
  have ne: "split_char d s \<noteq> []" by (rule split_char_not_Nil)
  have "map strip (split_char d (s @ [c]))
        = map strip (butlast (split_char d s)) @ [strip (last (split_char d s))]"
    using assms by (simp add: split_char_snoc_other strip_space_snoc)
  also have "\<dots> = map strip (butlast (split_char d s) @ [last (split_char d s)])" by simp
  also have "\<dots> = map strip (split_char d s)" using ne by simp
  finally show ?thesis .
qed

lemma join_Cons: "join (w # ws) = (if ws = [] then w else w @ '' '' @ join ws)"
  by (cases ws) auto

lemma join_append:
  "join (xs @ ys) = (if xs = [] then join ys else if ys = [] then join xs
                     else join xs @ '' '' @ join ys)"
  by (induction xs rule: join.induct) (auto simp: join_Cons)


section \<open>Segments and the marked token list\<close>

lemma split_none_not_Nil: "split_none ms \<noteq> []"
  by (induction ms rule: split_none.induct) auto

lemma flat_Cons: "segs \<noteq> [] \<Longrightarrow> flat (seg # segs) = seg @ [''$''] @ flat segs"
  by (cases segs) auto

lemma flat_split_none: "flat (split_none ms) = map (case_option ''$'' id) ms"
proof (induction ms rule: split_none.induct)
  case 1 show ?case by simp
next
  case (2 ms)
  then show ?case by (simp add: flat_Cons split_none_not_Nil)
next
  case (3 x ms)
  obtain p ps where e: "split_none ms = p # ps"
    using split_none_not_Nil [of ms] by (cases "split_none ms") auto
  with 3 show ?case by (cases ps) auto
qed

lemma pieces_flat:
  "segs \<noteq> [] \<Longrightarrow>
   map strip (split_char CHR ''$'' (join (flat segs))) = concat (map segment_pieces segs)"
proof (induction segs rule: flat.induct)
  case 1 then show ?case by simp
next
  case (2 seg) show ?case by (simp add: segment_pieces_def)
next
  case (3 seg v va)
  let ?R = "flat (v # va)"
  let ?A = "if seg = [] then [] else join seg @ '' ''"
  let ?B = "if ?R = [] then [] else CHR '' '' # join ?R"
  have sp: "is_space CHR '' ''" "CHR '' '' \<noteq> CHR ''$''" by (simp_all add: is_space_def)
  have "join (flat (seg # v # va)) = ?A @ CHR ''$'' # ?B"
    by (simp add: join_append join_Cons)
  then have "map strip (split_char CHR ''$'' (join (flat (seg # v # va))))
        = map strip (split_char CHR ''$'' ?A) @ map strip (split_char CHR ''$'' ?B)"
    by (simp only: split_char_append map_append)
  moreover have "map strip (split_char CHR ''$'' ?A) = segment_pieces seg"
    using pieces_space_snoc [OF sp, of "join seg"] by (simp add: segment_pieces_def)
  moreover have "map strip (split_char CHR ''$'' ?B) = map strip (split_char CHR ''$'' (join ?R))"
    using pieces_space_Cons [OF sp, of "join ?R"] by simp
  ultimately show ?case using 3 by simp
qed

section \<open>The marking loop of \<open>get_split_comma\<close>\<close>

lemma count_list_agree:
  "list_all2 (\<lambda>a b. a = x \<longleftrightarrow> b = x) xs ys \<Longrightarrow>
   count_list (take k xs) x = count_list (take k ys) x \<and>
   count_list (drop k xs) x = count_list (drop k ys) x"
proof (induction xs ys arbitrary: k rule: list_all2_induct)
  case Nil show ?case by simp
next
  case (Cons a xs b ys)
  show ?case
  proof (cases k)
    case 0
    with Cons.hyps Cons.IH [of 0] show ?thesis by auto
  next
    case (Suc j)
    with Cons.hyps Cons.IH [of j] show ?thesis by auto
  qed
qed

lemma marked_upto_agree:
  "list_all2 (\<lambda>a b. a = ''('' \<longleftrightarrow> b = ''('') (marked_upto ts k) ts"
  "list_all2 (\<lambda>a b. a = '')'' \<longleftrightarrow> b = '')'') (marked_upto ts k) ts"
  by (auto simp: list_all2_conv_all_nth marked_upto_def top_level_def)

lemma mark_step_marked:
  assumes "k < length ts"
  shows "mark_step (Inr (marked_upto ts k)) k = Inr (marked_upto ts (Suc k))"
proof -
  let ?L = "marked_upto ts k"
  have len: "length ?L = length ts" by (simp add: marked_upto_def)
  have at: "?L ! k = ts ! k" using assms by (simp add: marked_upto_def)
  have c1: "count_list (take k ?L) ''('' = count_list (take k ts) ''(''"
    by (rule conjunct1 [OF count_list_agree [OF marked_upto_agree(1)]])
  have c2: "count_list (take k ?L) '')'' = count_list (take k ts) '')''"
    by (rule conjunct1 [OF count_list_agree [OF marked_upto_agree(2)]])
  have c3: "count_list (drop (k + 1) ?L) ''('' = count_list (drop (k + 1) ts) ''(''"
    by (rule conjunct2 [OF count_list_agree [OF marked_upto_agree(1)]])
  have c4: "count_list (drop (k + 1) ?L) '')'' = count_list (drop (k + 1) ts) '')''"
    by (rule conjunct2 [OF count_list_agree [OF marked_upto_agree(2)]])
  have upd: "?L[k := ''$''] = marked_upto ts (Suc k)" if "top_level ts k"
  proof (rule nth_equalityI)
    show "length (?L[k := ''$'']) = length (marked_upto ts (Suc k))"
      by (simp add: marked_upto_def)
  next
    fix i assume "i < length (?L[k := ''$''])"
    then have "i < length ts" by (simp add: marked_upto_def)
    then show "?L[k := ''$''] ! i = marked_upto ts (Suc k) ! i"
      using that assms by (auto simp: marked_upto_def nth_list_update less_Suc_eq)
  qed
  have same: "?L = marked_upto ts (Suc k)" if "\<not> top_level ts k"
    using that by (auto simp: marked_upto_def less_Suc_eq)
  show ?thesis
  proof (cases "top_level ts k")
    case True
    then have "ts ! k = '',''" by (simp add: top_level_def)
    with True upd show ?thesis
      unfolding mark_step_def using at c1 c2 c3 c4 by (simp add: top_level_def)
  next
    case False
    with same show ?thesis
      unfolding mark_step_def using at c1 c2 c3 c4 by (auto simp: top_level_def)
  qed
qed

lemma mark_loop_upto:
  "k \<le> length ts \<Longrightarrow> foldl mark_step (Inr ts) [0..<k] = Inr (marked_upto ts k)"
proof (induction k)
  case 0
  show ?case by (simp add: marked_upto_def map_nth)
next
  case (Suc k)
  then show ?case by (simp add: mark_step_marked)
qed

lemma mark_loop:
  "foldl mark_step (Inr ts) [0..<length ts] = Inr (map (case_option ''$'' id) (marks ts))"
proof -
  have "marked_upto ts (length ts) = map (case_option ''$'' id) (marks ts)"
    by (simp add: marked_upto_def marks_def)
  then show ?thesis using mark_loop_upto [of "length ts" ts] by simp
qed


section \<open>Tokens are words\<close>

lemma split_ws_words:
  "\<forall>c\<in>set cur. \<not> is_space c \<Longrightarrow> t \<in> set (split_ws cur s) \<Longrightarrow>
   word t \<and> set t \<subseteq> set cur \<union> set s"
proof (induction cur s rule: split_ws.induct)
  case (1 cur)
  then show ?case by (auto simp: word_def split: if_splits)
next
  case (2 cur c cs)
  show ?case
  proof (cases "is_space c")
    case True
    show ?thesis
    proof (cases "cur = []")
      case e: True
      with True 2 show ?thesis by auto
    next
      case ne: False
      with True 2 show ?thesis by (auto simp: word_def)
    qed
  next
    case False
    with 2 show ?thesis by auto
  qed
qed

lemma split_words: "t \<in> set (split s) \<Longrightarrow> word t \<and> set t \<subseteq> set s"
  using split_ws_words [of "[]" t s] by (simp add: split_def)

lemma strip_word: "word t \<Longrightarrow> strip t = t"
proof -
  assume w: "word t"
  then have a: "dropWhile is_space t = t"
    by (cases t) (auto simp: word_def)
  from w have "rev t \<noteq> [] \<and> \<not> is_space (hd (rev t))"
    by (cases t rule: rev_cases) (auto simp: word_def)
  then have "dropWhile is_space (rev t) = rev t"
    by (cases "rev t") auto
  with a show ?thesis by (simp add: strip_def)
qed

lemma map_strip_split: "map strip (split s) = split s"
  by (rule map_idI) (simp add: split_words strip_word)

lemma set_replace_comma: "set (replace_comma s) \<subseteq> set s \<union> {CHR '' '', CHR '',''}"
  by (auto simp: replace_comma_def split: if_splits)

lemma tokens_words: "t \<in> set (tokens s) \<Longrightarrow> word t"
  by (simp add: tokens_def split_words)

lemma tokens_chars: "t \<in> set (tokens s) \<Longrightarrow> set t \<subseteq> set s \<union> {CHR '' '', CHR '',''}"
  using split_words [of t "replace_comma s"] set_replace_comma [of s]
  by (auto simp: tokens_def)

lemma set_split_none: "set (concat (split_none ms)) = {x. Some x \<in> set ms}"
proof (induction ms rule: split_none.induct)
  case 1 show ?case by simp
next
  case (2 ms) then show ?case by auto
next
  case (3 x ms)
  obtain p ps where e: "split_none ms = p # ps"
    using split_none_not_Nil [of ms] by (cases "split_none ms") auto
  with 3 show ?case by auto
qed

lemma segment_tokens:
  "seg \<in> set (top_level_segments s) \<Longrightarrow> t \<in> set seg \<Longrightarrow> t \<in> set (tokens s)"
proof -
  assume "seg \<in> set (top_level_segments s)" "t \<in> set seg"
  then have "t \<in> set (concat (split_none (marks (tokens s))))"
    by (auto simp: top_level_segments_def)
  then have "t \<in> {x. Some x \<in> set (marks (tokens s))}" by (simp only: set_split_none)
  then have "Some t \<in> set (marks (tokens s))" by simp
  then show ?thesis by (auto simp: marks_def split: if_splits)
qed

lemma join_words:
  "\<forall>t\<in>set seg. word t \<Longrightarrow> seg \<noteq> [] \<Longrightarrow>
   join seg \<noteq> [] \<and> \<not> is_space (hd (join seg)) \<and> \<not> is_space (last (join seg))"
proof (induction seg rule: join.induct)
  case 1 then show ?case by simp
next
  case (2 w) then show ?case by (cases w) (auto simp: word_def)
next
  case (3 w v ws)
  then have "w \<noteq> []" "\<not> is_space (hd w)" by (cases w; auto simp: word_def)+
  moreover have "join (v # ws) \<noteq> [] \<and> \<not> is_space (last (join (v # ws)))" using 3 by simp
  ultimately show ?case by simp
qed

lemma strip_join: "\<forall>t\<in>set seg. word t \<Longrightarrow> strip (join seg) = join seg"
proof (cases "seg = []")
  case True then show ?thesis by (simp add: strip_def)
next
  case False
  assume "\<forall>t\<in>set seg. word t"
  with False have j: "join seg \<noteq> []" "\<not> is_space (hd (join seg))" "\<not> is_space (last (join seg))"
    using join_words by blast+
  then have a: "dropWhile is_space (join seg) = join seg" by (cases "join seg") auto
  from j have "rev (join seg) \<noteq> [] \<and> \<not> is_space (hd (rev (join seg)))"
    by (simp add: hd_rev)
  then have "dropWhile is_space (rev (join seg)) = rev (join seg)"
    by (cases "rev (join seg)") auto
  with a show ?thesis by (simp add: strip_def)
qed

lemma set_join: "set (join seg) \<subseteq> \<Union> (set ` set seg) \<union> {CHR '' ''}"
  by (induction seg rule: join.induct) auto

lemma segment_pieces_plain:
  assumes "\<forall>t\<in>set seg. word t \<and> CHR ''$'' \<notin> set t"
  shows "segment_pieces seg = [join seg]"
proof -
  have "CHR ''$'' \<notin> set (join seg)" using set_join [of seg] assms by auto
  then show ?thesis using assms by (simp add: segment_pieces_def split_char_absent strip_join)
qed

lemma result_set_fold:
  "foldl (\<lambda>result_set str. insert (strip str) result_set) acc xs = acc \<union> set (map strip xs)"
  by (induction xs arbitrary: acc) auto

lemma get_split_comma_pieces:
  "get_split_comma s = Inr (set (concat (map segment_pieces (top_level_segments s))))"
proof -
  let ?ts = "tokens s"
  have "map strip (split (replace_comma s)) = ?ts" by (simp add: map_strip_split tokens_def)
  moreover have "map strip (split_char CHR ''$'' (join (map (case_option ''$'' id) (marks ?ts))))
        = concat (map segment_pieces (top_level_segments s))"
    using pieces_flat [OF split_none_not_Nil, of "marks ?ts"]
    by (simp add: flat_split_none top_level_segments_def)
  then have "set (map strip (split_char CHR ''$'' (join (map (case_option ''$'' id) (marks ?ts)))))
        = set (concat (map segment_pieces (top_level_segments s)))"
    by (rule arg_cong)
  ultimately show ?thesis
    by (simp add: get_split_comma_def Let_def mark_loop result_set_fold del: set_concat set_map)
qed

lemma get_split_comma_plain:
  assumes "CHR ''$'' \<notin> set s"
  shows "get_split_comma s = Inr (join ` set (top_level_segments s))"
proof -
  have "segment_pieces seg = [join seg]" if "seg \<in> set (top_level_segments s)" for seg
  proof (rule segment_pieces_plain, rule ballI)
    fix t assume "t \<in> set seg"
    with that have t: "t \<in> set (tokens s)" by (rule segment_tokens)
    with assms tokens_chars [OF t] show "word t \<and> CHR ''$'' \<notin> set t"
      by (auto simp: tokens_words)
  qed
  then have "map segment_pieces (top_level_segments s) = map (\<lambda>seg. [join seg]) (top_level_segments s)"
    by simp
  then have "concat (map segment_pieces (top_level_segments s))
             = concat (map (\<lambda>seg. [join seg]) (top_level_segments s))"
    by (rule arg_cong)
  then have "concat (map segment_pieces (top_level_segments s)) = map join (top_level_segments s)"
    by (simp only: concat_map_singleton)
  then show ?thesis by (simp add: get_split_comma_pieces)
qed
section \<open>\<open>get_split_comma\<close> and \<open>is_all_same\<close> as functions of the segments\<close>

lemma get_split_comma_total: "\<exists>r. get_split_comma s = Inr r"
  by (simp add: get_split_comma_pieces)

lemma cmp_loop_eq:
  "cmp_loop c1 c2 js = (\<forall>j\<in>set js. c1 ! j = c2 ! j)"
  by (induction js) auto

lemma cmp_loop_all:
  assumes "length c1 = length c2"
  shows "cmp_loop c1 c2 [0..<length c1] = (c1 = c2)"
proof -
  have "(c1 = c2) = (\<forall>j<length c1. c1 ! j = c2 ! j)"
    using assms by (simp add: list_eq_iff_nth_eq [of c1 c2])
  then show ?thesis by (auto simp: cmp_loop_eq)
qed

lemma is_all_same_eq:
  "is_all_same c1 c2 fm =
     Inr (c1 = c2 \<or> get_split_comma (join (map fm c1)) = get_split_comma (join (map fm c2)))"
proof -
  obtain s1 s2 where s: "get_split_comma (join (map fm c1)) = Inr s1"
      "get_split_comma (join (map fm c2)) = Inr s2"
    using get_split_comma_total by blast
  show ?thesis
  proof (cases "length c1 = length c2")
    case True
    have "is_all_same c1 c2 fm =
            (if cmp_loop c1 c2 [0..<length c1] then Inr True else Inr (s1 = s2))"
      using True by (simp add: is_all_same_def Let_def s)
    then show ?thesis by (simp add: cmp_loop_all [OF True] s)
  next
    case False
    then have "c1 \<noteq> c2" by auto
    with False show ?thesis by (simp add: is_all_same_def Let_def s)
  qed
qed

lemma mark_step_total: "\<exists>l'. mark_step (Inr l) i = Inr l'"
  by (simp add: mark_step_def)

lemma join_no_dollar:
  "\<forall>x\<in>set c. CHR ''$'' \<notin> set (fm x) \<Longrightarrow> CHR ''$'' \<notin> set (join (map fm c))"
  using set_join [of "map fm c"] by auto

lemmas eval_defs = get_split_comma_def replace_comma_def split_def is_space_def strip_def
  mark_step_def upt_rec top_level_segments_def tokens_def marks_def top_level_def
  normalized_segments_def claimed_all_same_def is_all_same_def abc_symbol_def

section \<open>The accuracy loop\<close>

lemma copy_loop: "foldl (\<lambda>l i. l @ [xs ! i]) [] [0..<length xs] = xs"
proof -
  have "k \<le> length xs \<Longrightarrow> foldl (\<lambda>l i. l @ [xs ! i]) [] [0..<k] = take k xs" for k
    by (induction k) (auto simp: take_Suc_conv_app_nth)
  from this [of "length xs"] show ?thesis by simp
qed

lemma count_loop_eq:
  "count_loop cs rs fm js c =
     Inr (c + length (filter (\<lambda>i. is_all_same (cs ! i) (rs ! i) fm = Inr True) js))"
proof (induction js arbitrary: c)
  case Nil show ?case by simp
next
  case (Cons j js)
  obtain b where b: "is_all_same (cs ! j) (rs ! j) fm = Inr b" by (simp add: is_all_same_eq)
  with Cons show ?case by (cases b) auto
qed

lemma compute_accuracy_eq:
  "compute_accuracy cs rs fm =
     (if min (length cs) (length rs) = 0 then Inl ZeroDivisionError
      else Inr (of_nat (matches cs rs fm (min (length cs) (length rs)))
                / of_nat (min (length cs) (length rs))))"
proof -
  have "(min (length cs) (length rs) = 0) = (cs = [] \<or> rs = [])"
    by (auto simp: min_def)
  then show ?thesis
    by (simp add: compute_accuracy_def Let_def count_loop_eq matches_def)
qed

lemma compute_tree_accuracy_eq: "compute_tree_accuracy cs rs fm = compute_accuracy cs rs fm"
  by (simp add: compute_tree_accuracy_def copy_loop)

lemma matches_take:
  "m \<le> length cs \<Longrightarrow> m \<le> length rs \<Longrightarrow> matches (take m cs) (take m rs) fm m = matches cs rs fm m"
  unfolding matches_def by (rule arg_cong [where f = length], rule filter_cong) auto

lemma abc_is_all_same:
  "is_all_same [0, 1, 2] [2, 1, 0] abc_symbol = Inr True"
  "is_all_same [0] [2] abc_symbol = Inr False"
  by (auto simp add: eval_defs)

section \<open>The claims about scoring\<close>

text \<open>
  Claim C1, as the code has it. When no symbol of the two lists holds a \<open>$\<close> character,
  \<open>is_all_same\<close> returns True exactly when the lists are equal or their rendered strings
  have the same set of top-level comma segments, each segment being its tokens joined by
  single spaces. Top level is decided by counting the \<open>(\<close> and \<open>)\<close> tokens before and
  after the comma.
\<close>

theorem is_all_same_segments:
  assumes "\<forall>x\<in>set c1 \<union> set c2. CHR ''$'' \<notin> set (form_manager x)"
  shows "is_all_same c1 c2 form_manager = Inr (claimed_all_same c1 c2 form_manager)"
proof -
  have "CHR ''$'' \<notin> set (join (map form_manager c1))" "CHR ''$'' \<notin> set (join (map form_manager c2))"
    using assms by (simp_all add: join_no_dollar)
  then show ?thesis
    by (simp add: is_all_same_eq get_split_comma_plain claimed_all_same_def normalized_segments_def)
qed

theorem is_all_same_segments_witness:
  "CHR ''$'' \<notin> set (abc_symbol 0) \<and> CHR ''$'' \<notin> set (abc_symbol 1) \<and>
   CHR ''$'' \<notin> set (abc_symbol 2) \<and>
   is_all_same [0, 1, 2] [2, 1, 0] abc_symbol = Inr True"
proof -
  have h: "\<forall>x\<in>set [0, 1, 2] \<union> set [2, 1, 0]. CHR ''$'' \<notin> set (abc_symbol x)"
    by (simp add: abc_symbol_def)
  have "claimed_all_same [0, 1, 2] [2, 1, 0] abc_symbol"
    by (auto simp add: eval_defs)
  with is_all_same_segments [OF h]
  have r: "is_all_same [0, 1, 2] [2, 1, 0] abc_symbol = Inr True" by simp
  have "CHR ''$'' \<notin> set (abc_symbol 0)" "CHR ''$'' \<notin> set (abc_symbol 1)"
    "CHR ''$'' \<notin> set (abc_symbol 2)"
    by (simp_all add: abc_symbol_def)
  with r show ?thesis by blast
qed

text \<open>
  Claim C1 as it is stated fails for a vocabulary with the symbol \<open>$\<close>: the lists
  a \<open>$\<close> b and b \<open>$\<close> a differ and have no comma, so each is one segment, and the two
  segments differ; \<open>is_all_same\<close> cuts both at the \<open>$\<close> and returns True.
\<close>

theorem is_all_same_dollar_counterexample:
  "is_all_same [0, 3, 2] [2, 3, 0] abc_symbol = Inr True \<and>
   \<not> claimed_all_same [0, 3, 2] [2, 3, 0] abc_symbol"
  by (auto simp add: eval_defs)

text \<open>
  Claim C5. \<open>compute_tree_accuracy\<close> agrees with \<open>compute_accuracy\<close> on all inputs, and
  for non-empty lists it returns \<open>c / m\<close>, where \<open>m\<close> is the smaller of the two lengths
  and \<open>c\<close> the number of indices below \<open>m\<close> at which \<open>is_all_same\<close> holds; the entries
  from index \<open>m\<close> on do not matter.
\<close>

theorem compute_tree_accuracy_ratio:
  "compute_tree_accuracy candidate_list reference_list form_manager
     = compute_accuracy candidate_list reference_list form_manager \<and>
   (candidate_list \<noteq> [] \<and> reference_list \<noteq> [] \<longrightarrow>
      (let m = min (length candidate_list) (length reference_list)
       in compute_tree_accuracy candidate_list reference_list form_manager
            = Inr (of_nat (matches candidate_list reference_list form_manager m) / of_nat m) \<and>
          compute_tree_accuracy (take m candidate_list) (take m reference_list) form_manager
            = compute_tree_accuracy candidate_list reference_list form_manager))"
proof -
  let ?m = "min (length candidate_list) (length reference_list)"
  have "matches (take ?m candidate_list) (take ?m reference_list) form_manager ?m
        = matches candidate_list reference_list form_manager ?m"
    by (rule matches_take) simp_all
  then show ?thesis
    by (auto simp: compute_tree_accuracy_eq compute_accuracy_eq Let_def min_def)
qed

theorem compute_tree_accuracy_ratio_witness:
  "[[0, 1, 2], [0]] \<noteq> ([] :: int list list) \<and> [[2, 1, 0], [2], [0]] \<noteq> ([] :: int list list) \<and>
   compute_tree_accuracy [[0, 1, 2], [0]] [[2, 1, 0], [2], [0]] abc_symbol = Inr (1 / 2) \<and>
   compute_tree_accuracy [[0, 1, 2], [0]] [[2, 1, 0], [2]] abc_symbol = Inr (1 / 2)"
proof -
  have m: "matches [[0, 1, 2], [0]] [[2, 1, 0], [2], [0]] abc_symbol (Suc (Suc 0)) = 1"
    by (simp add: matches_def upt_rec abc_is_all_same)
  show ?thesis
    using compute_tree_accuracy_ratio [of "[[0, 1, 2], [0]]" "[[2, 1, 0], [2], [0]]" abc_symbol]
    by (auto simp: Let_def m)
qed

text \<open>
  Claim C6, as the code has it. For a string without a \<open>$\<close> character,
  \<open>get_split_comma\<close> returns the set of its top-level comma segments, each joined by single
  spaces. For all strings, with or without \<open>$\<close>, the result depends only on the set of
  segments: two strings whose segment lists hold the same segments, in any order and any
  number of times, have the same result.
\<close>

theorem get_split_comma_segments:
  "(CHR ''$'' \<notin> set s \<longrightarrow> get_split_comma s = Inr (normalized_segments s)) \<and>
   (set (top_level_segments s') = set (top_level_segments s)
      \<longrightarrow> get_split_comma s' = get_split_comma s)"
proof (intro conjI impI)
  assume "CHR ''$'' \<notin> set s"
  then show "get_split_comma s = Inr (normalized_segments s)"
    by (simp add: get_split_comma_plain normalized_segments_def)
next
  assume "set (top_level_segments s') = set (top_level_segments s)"
  then have "set (concat (map segment_pieces (top_level_segments s')))
             = set (concat (map segment_pieces (top_level_segments s)))"
    by simp
  then show "get_split_comma s' = get_split_comma s"
    by (simp only: get_split_comma_pieces)
qed

theorem get_split_comma_segments_witness:
  "CHR ''$'' \<notin> set ''a , ( b , c )'' \<and>
   set (top_level_segments ''( b,c ) , a , ( b , c )'') = set (top_level_segments ''a , ( b , c )'') \<and>
   get_split_comma ''a , ( b , c )'' = Inr {''a'', ''( b , c )''} \<and>
   get_split_comma ''( b,c ) , a , ( b , c )'' = get_split_comma ''a , ( b , c )''"
proof -
  have h1: "CHR ''$'' \<notin> set ''a , ( b , c )''" by simp
  have h2: "set (top_level_segments ''( b,c ) , a , ( b , c )'')
            = set (top_level_segments ''a , ( b , c )'')"
    by (auto simp add: eval_defs)
  have n: "normalized_segments ''a , ( b , c )'' = {''a'', ''( b , c )''}"
    by (auto simp add: eval_defs)
  from get_split_comma_segments [of "''a , ( b , c )''" "''( b,c ) , a , ( b , c )''"] h1 h2 n
  show ?thesis by simp
qed

text \<open>
  Claim C6 as it is stated fails for a string with a \<open>$\<close> character: \<open>a $ b\<close> has no
  comma, so it is one segment, and \<open>get_split_comma\<close> returns the two pieces a and b.
\<close>

theorem get_split_comma_dollar_counterexample:
  "get_split_comma ''a $ b'' \<noteq> Inr (normalized_segments ''a $ b'')"
  by (auto simp add: eval_defs)

text \<open>
  Claim C9. \<open>is_all_same\<close> returns a Boolean for all inputs, so its closing
  \<open>NotImplementedError\<close> is never reached; \<open>get_split_comma\<close> returns a set for every
  string, and no pass of its loop takes the \<open>RuntimeError\<close> branch.
\<close>

theorem is_all_same_never_raises:
  "(\<exists>b. is_all_same c1 c2 form_manager = Inr b) \<and>
   (\<exists>r. get_split_comma s = Inr r) \<and>
   mark_step (Inr input_list) index \<noteq> Inl RuntimeError"
  using mark_step_total [of input_list index]
  by (auto simp: is_all_same_eq get_split_comma_total)

theorem is_all_same_never_raises_witness:
  "(\<exists>b. is_all_same [0, 3, 2] [2, 3] abc_symbol = Inr b) \<and>
   (\<exists>r. get_split_comma ''a $ , ( b'' = Inr r) \<and>
   mark_step (Inr [''a'', ''$'', '','', ''('', ''b'']) 2 \<noteq> Inl RuntimeError"
  by (rule is_all_same_never_raises)

section \<open>Counting symbols\<close>

lemma count_symbol_append:
  "count_symbol m symbol (xs @ ys) =
     (case count_symbol m symbol xs of Inl e \<Rightarrow> Inl e
      | Inr a \<Rightarrow> (case count_symbol m symbol ys of Inl e \<Rightarrow> Inl e | Inr b \<Rightarrow> Inr (a + b)))"
  by (induction xs) (auto split: option.splits sum.splits)

lemma count_symbol_le: "count_symbol m symbol xs = Inr n \<Longrightarrow> n \<le> length xs"
  by (induction xs arbitrary: n) (auto split: option.splits sum.splits if_splits)

lemma append_loop_raises: "js \<noteq> [] \<Longrightarrow> append_loop cand js = Inl AttributeError"
  by (cases js) (simp_all add: test_data_loader_def)

lemma count_symbol_take_drop:
  assumes "count_symbol m symbol xs = Inr n"
  shows "\<exists>a b. count_symbol m symbol (take k xs) = Inr a \<and> count_symbol m symbol (drop k xs) = Inr b
               \<and> n = a + b"
  using assms count_symbol_append [of m symbol "take k xs" "drop k xs"]
  by (auto split: sum.splits)

section \<open>Vocabulary invariants\<close>

lemma ext_loop_visit_all:
  "oov < length h \<Longrightarrow>
   ext_loop h oov ns tm =
     (case visit_all (h ! oov) ns tm of Inl e \<Rightarrow> Inl e | Inr (v', tm') \<Rightarrow> Inr (h[oov := v'], tm'))"
proof (induction ns arbitrary: h tm)
  case Nil
  then show ?case by simp
next
  case (Cons n ns)
  show ?case
  proof (cases "visit (h ! oov) n")
    case (Inl e)
    then show ?thesis
      using Cons.prems
      by (auto simp: visit_def word_node_def Let_def split: sum.splits if_splits)
  next
    case (Inr p)
    obtain v' i where p: "p = (v', i)" by (cases p)
    have step: "ext_loop h oov (n # ns) tm = ext_loop (h[oov := v']) oov ns (tm @ [i])"
      using Inr p Cons.prems
      by (auto simp: visit_def word_node_def Let_def split: sum.splits if_splits)
    have "oov < length (h[oov := v'])" using Cons.prems by simp
    from Cons.IH [OF this, of "tm @ [i]"] Cons.prems
    have "ext_loop (h[oov := v']) oov ns (tm @ [i]) =
            (case visit_all v' ns (tm @ [i]) of Inl e \<Rightarrow> Inl e
             | Inr (v'', tm') \<Rightarrow> Inr (h[oov := v''], tm'))"
      by (simp split: sum.splits prod.splits)
    then show ?thesis unfolding step using Inr p by simp
  qed
qed


lemma extends_refl: "extends v v"
  by (simp add: extends_def)

lemma extends_trans: "extends a b \<Longrightarrow> extends b c \<Longrightarrow> extends a c"
  by (auto simp: extends_def intro: map_le_trans)

lemma extends_lookup: "extends v v' \<Longrightarrow> symbol2idx v s = Some i \<Longrightarrow> symbol2idx v' s = Some i"
  by (auto simp: extends_def map_le_def dom_def)

lemma extends_add_symbol: "extends v (add_symbol v s)"
  by (auto simp: extends_def add_symbol_def map_le_def)

lemma wf_add_symbol:
  assumes "wf_vocab v"
  shows "wf_vocab (add_symbol v s)"
proof (cases "s \<in> dom (symbol2idx v)")
  case True
  with assms show ?thesis by (simp add: add_symbol_def)
next
  case False
  from assms have lt: "\<And>t i. symbol2idx v t = Some i \<Longrightarrow> i < vocab_size v"
    and inj: "inj_on (symbol2idx v) (dom (symbol2idx v))"
    and unk: "unk_token v \<in> dom (symbol2idx v)"
    by (auto simp: wf_vocab_def)
  have "inj_on ((symbol2idx v)(s \<mapsto> vocab_size v)) (insert s (dom (symbol2idx v)))"
  proof (rule inj_onI)
    fix x y
    assume x: "x \<in> insert s (dom (symbol2idx v))" and y: "y \<in> insert s (dom (symbol2idx v))"
      and e: "((symbol2idx v)(s \<mapsto> vocab_size v)) x = ((symbol2idx v)(s \<mapsto> vocab_size v)) y"
    show "x = y"
    proof (cases "x = s")
      case xs: True
      show ?thesis
      proof (cases "y = s")
        case True with xs show ?thesis by simp
      next
        case ys: False
        with y obtain j where "symbol2idx v y = Some j" by auto
        with lt [of y j] e xs ys show ?thesis by auto
      qed
    next
      case xs: False
      with x obtain i where i: "symbol2idx v x = Some i" by auto
      show ?thesis
      proof (cases "y = s")
        case True
        with lt [of x i] i e xs show ?thesis by auto
      next
        case ys: False
        with y have "y \<in> dom (symbol2idx v)" by auto
        moreover from x xs have "x \<in> dom (symbol2idx v)" by auto
        moreover from e xs ys have "symbol2idx v x = symbol2idx v y" by simp
        ultimately show ?thesis using inj by (auto dest: inj_onD)
      qed
    qed
  qed
  moreover have "\<forall>t i. ((symbol2idx v)(s \<mapsto> vocab_size v)) t = Some i \<longrightarrow> i < vocab_size v + 1"
  proof (intro allI impI)
    fix t i assume "((symbol2idx v)(s \<mapsto> vocab_size v)) t = Some i"
    then have "i = vocab_size v \<or> symbol2idx v t = Some i" by (auto split: if_splits)
    then show "i < vocab_size v + 1" using lt [of t i] by auto
  qed
  ultimately show ?thesis
    using False unk by (auto simp: wf_vocab_def add_symbol_def)
qed

lemma get_symbol_idx_known: "symbol2idx v s = Some i \<Longrightarrow> get_symbol_idx v s = Inr i"
  by (simp add: get_symbol_idx_def)


lemma visit_wf:
  assumes "wf_vocab v"
  shows "\<exists>v' i. visit v n = Inr (v', i) \<and> wf_vocab v' \<and> extends v v' \<and>
               get_symbol_idx v' (token n) = Inr i \<and>
               (word_node n \<or> token n \<in> dom (symbol2idx v) \<longrightarrow> symbol2idx v' (token n) = Some i)"
proof -
  from assms obtain u where u: "symbol2idx v (unk_token v) = Some u"
    by (auto simp: wf_vocab_def)
  show ?thesis
  proof (cases "symbol2idx v (token n)")
    case (Some a)
    then have "visit v n = Inr (v, a)"
      by (auto simp: visit_def get_symbol_idx_known u add_symbol_def)
    with Some assms show ?thesis by (simp add: extends_refl get_symbol_idx_known)
  next
    case None
    show ?thesis
    proof (cases "word_node n")
      case True
      let ?v = "add_symbol v (token n)"
      have k: "symbol2idx ?v (token n) = Some (vocab_size v)"
        using None by (simp add: add_symbol_def dom_def)
      have "get_symbol_idx v (token n) = Inr u" "get_symbol_idx v (unk_token v) = Inr u"
        using None u by (simp_all add: get_symbol_idx_def)
      then have "visit v n = Inr (?v, vocab_size v)"
        using True by (simp add: visit_def get_symbol_idx_known [OF k])
      with k assms show ?thesis
        by (simp add: wf_add_symbol extends_add_symbol get_symbol_idx_known)
    next
      case False
      have "get_symbol_idx v (token n) = Inr u"
        using None u by (simp add: get_symbol_idx_def)
      then have "visit v n = Inr (v, u)" using False by (simp add: visit_def)
      with None False assms show ?thesis
        by (simp add: extends_refl get_symbol_idx_def u dom_def)
    qed
  qed
qed

lemma visit_all_wf:
  assumes "wf_vocab v"
  shows "\<exists>v' new. visit_all v ns tm = Inr (v', tm @ new) \<and> wf_vocab v' \<and> extends v v' \<and>
           length new = length ns \<and>
           (\<forall>k<length ns. word_node (ns ! k) \<or> token (ns ! k) \<in> dom (symbol2idx v)
                \<longrightarrow> symbol2idx v' (token (ns ! k)) = Some (new ! k))"
  using assms
proof (induction ns arbitrary: v tm)
  case Nil
  then show ?case by (simp add: extends_refl)
next
  case (Cons n ns)
  from visit_wf [OF Cons.prems, of n] obtain v1 i where
    v1: "visit v n = Inr (v1, i)" "wf_vocab v1" "extends v v1"
        "word_node n \<or> token n \<in> dom (symbol2idx v) \<longrightarrow> symbol2idx v1 (token n) = Some i"
    by blast
  from Cons.IH [OF v1(2), of "tm @ [i]"] obtain v' new where
    r: "visit_all v1 ns (tm @ [i]) = Inr (v', (tm @ [i]) @ new)" "wf_vocab v'" "extends v1 v'"
       "length new = length ns"
       "\<forall>k<length ns. word_node (ns ! k) \<or> token (ns ! k) \<in> dom (symbol2idx v1)
                \<longrightarrow> symbol2idx v' (token (ns ! k)) = Some (new ! k)"
    by blast
  have dom: "t \<in> dom (symbol2idx v) \<Longrightarrow> t \<in> dom (symbol2idx v1)" for t
    using v1(3) by (auto dest: extends_lookup)
  have "\<forall>k<length (n # ns). word_node ((n # ns) ! k) \<or> token ((n # ns) ! k) \<in> dom (symbol2idx v)
          \<longrightarrow> symbol2idx v' (token ((n # ns) ! k)) = Some ((i # new) ! k)"
  proof (intro allI impI)
    fix k assume k: "k < length (n # ns)"
      and c: "word_node ((n # ns) ! k) \<or> token ((n # ns) ! k) \<in> dom (symbol2idx v)"
    show "symbol2idx v' (token ((n # ns) ! k)) = Some ((i # new) ! k)"
    proof (cases k)
      case 0
      with c v1(4) have "symbol2idx v1 (token n) = Some i" by simp
      with r(3) 0 show ?thesis by (simp add: extends_lookup)
    next
      case (Suc j)
      with k c dom r(5) show ?thesis by auto
    qed
  qed
  moreover have "visit_all v (n # ns) tm = Inr (v', tm @ (i # new))"
    using v1(1) r(1) by simp
  moreover have "extends v v'" using v1(3) r(3) by (rule extends_trans)
  ultimately show ?case using r(2) r(4)
    by (intro exI [of _ v'] exI [of _ "i # new"]) simp
qed












section \<open>The claims about the parenthesis repair and the extended vocabulary\<close>

lemma ext_loop_copy:
  "ext_loop (h @ [v]) (length h) ns tm =
     (case visit_all v ns tm of Inl e \<Rightarrow> Inl e | Inr (v', tm') \<Rightarrow> Inr (h @ [v'], tm'))"
  using ext_loop_visit_all [of "length h" "h @ [v]" ns tm]
  by (simp split: sum.splits prod.splits)



lemma wf_unk_vocab: "wf_vocab unk_vocab"
  by (auto simp: wf_vocab_def unk_vocab_def inj_on_def dom_def split: if_splits)







text \<open>
  When the candidate holds more \<open>(\<close> than \<open>)\<close>, the first pass of the appending
  loop reads \<open>self.test_data_loader.tgt_vocab\<close> and raises.
\<close>

lemma adjust_parens_surplus_open:
  assumes "count_symbol eval_idx2symbol ''('' candidate = Inr nl"
    and "count_symbol eval_idx2symbol '')'' candidate = Inr nr" and "nr < nl"
  shows "adjust_parens eval_idx2symbol candidate = Inl AttributeError"
proof -
  have "[0..<nl - nr] \<noteq> []" using assms(3) by simp
  then show ?thesis
    using assms by (simp add: adjust_parens_def Let_def append_loop_raises nat_diff_distrib')
qed

text \<open>
  Claim C8, as the code has it by design. With \<open>nl\<close> symbols \<open>(\<close> and \<open>nr\<close> symbols
  \<open>)\<close> in the candidate: when \<open>nl < nr\<close>, exactly the last \<open>nr - nl\<close> entries are
  removed, and the two counts are then equal exactly when the removed entries held
  \<open>nr - nl\<close> more \<open>)\<close> than \<open>(\<close>; when \<open>nl = nr\<close> the candidate is unchanged.
\<close>

theorem adjust_parens_effect:
  assumes l: "count_symbol eval_idx2symbol ''('' candidate = Inr nl"
      and r: "count_symbol eval_idx2symbol '')'' candidate = Inr nr"
  shows "(nl = nr \<longrightarrow> adjust_parens eval_idx2symbol candidate = Inr candidate) \<and>
         (nl < nr \<longrightarrow>
            adjust_parens eval_idx2symbol candidate
              = Inr (take (length candidate - (nr - nl)) candidate) \<and>
            (\<exists>dl dr. count_symbol eval_idx2symbol ''('' (drop (length candidate - (nr - nl)) candidate) = Inr dl \<and>
                     count_symbol eval_idx2symbol '')'' (drop (length candidate - (nr - nl)) candidate) = Inr dr \<and>
                     count_symbol eval_idx2symbol ''('' (take (length candidate - (nr - nl)) candidate) = Inr (nl - dl) \<and>
                     count_symbol eval_idx2symbol '')'' (take (length candidate - (nr - nl)) candidate) = Inr (nr - dr) \<and>
                     (nl - dl = nr - dr \<longleftrightarrow> dr = dl + (nr - nl))))"
proof (intro conjI impI allI)
  assume "nl = nr"
  then show "adjust_parens eval_idx2symbol candidate = Inr candidate"
    by (simp add: adjust_parens_def l r)
next
  assume g: "nl < nr"
  have "nr \<le> length candidate" using r by (rule count_symbol_le)
  then have "nat (int (length candidate) + (int nl - int nr)) = length candidate - (nr - nl)"
    using g by linarith
  then show "adjust_parens eval_idx2symbol candidate
              = Inr (take (length candidate - (nr - nl)) candidate)"
    using g by (simp add: adjust_parens_def l r Let_def)
next
  assume g: "nl < nr"
  let ?k = "length candidate - (nr - nl)"
  obtain al bl where a: "count_symbol eval_idx2symbol ''('' (take ?k candidate) = Inr al"
     "count_symbol eval_idx2symbol ''('' (drop ?k candidate) = Inr bl" "nl = al + bl"
    using count_symbol_take_drop [OF l] by blast
  obtain ar br where b: "count_symbol eval_idx2symbol '')'' (take ?k candidate) = Inr ar"
     "count_symbol eval_idx2symbol '')'' (drop ?k candidate) = Inr br" "nr = ar + br"
    using count_symbol_take_drop [OF r] by blast
  show "\<exists>dl dr. count_symbol eval_idx2symbol ''('' (drop ?k candidate) = Inr dl \<and>
                count_symbol eval_idx2symbol '')'' (drop ?k candidate) = Inr dr \<and>
                count_symbol eval_idx2symbol ''('' (take ?k candidate) = Inr (nl - dl) \<and>
                count_symbol eval_idx2symbol '')'' (take ?k candidate) = Inr (nr - dr) \<and>
                (nl - dl = nr - dr \<longleftrightarrow> dr = dl + (nr - nl))"
    using a b g by (intro exI [of _ bl] exI [of _ br]) auto
qed

theorem adjust_parens_effect_witness:
  "count_symbol paren_idx2symbol ''('' [0, 1, 1] = Inr 1 \<and>
   count_symbol paren_idx2symbol '')'' [0, 1, 1] = Inr 2 \<and>
   adjust_parens paren_idx2symbol [0, 1, 1] = Inr [0, 1] \<and>
   count_symbol paren_idx2symbol ''('' [0, 2, 1] = Inr 1 \<and>
   count_symbol paren_idx2symbol '')'' [0, 2, 1] = Inr 1 \<and>
   adjust_parens paren_idx2symbol [0, 2, 1] = Inr [0, 2, 1]"
proof -
  have l: "count_symbol paren_idx2symbol ''('' [0, 1, 1] = Inr 1"
    and r: "count_symbol paren_idx2symbol '')'' [0, 1, 1] = Inr 2"
    and l': "count_symbol paren_idx2symbol ''('' [0, 2, 1] = Inr 1"
    and r': "count_symbol paren_idx2symbol '')'' [0, 2, 1] = Inr 1"
    by (simp_all add: paren_idx2symbol_def)
  from adjust_parens_effect [OF l r]
  have "adjust_parens paren_idx2symbol [0, 1, 1] = Inr [0, 1]"
    by simp
  moreover from adjust_parens_effect [OF l' r']
  have "adjust_parens paren_idx2symbol [0, 2, 1] = Inr [0, 2, 1]"
    by simp
  ultimately show ?thesis using l r l' r' by simp
qed

text \<open>
  Claim C8 as it is stated fails when the surplus \<open>)\<close> is not at the end: the
  candidate \<open>) a\<close> loses its last entry, \<open>a\<close>, and keeps one \<open>)\<close> and no \<open>(\<close>.
\<close>

theorem adjust_parens_truncation_counterexample:
  "adjust_parens paren_idx2symbol [1, 2] = Inr [1] \<and>
   count_symbol paren_idx2symbol ''('' [1] = Inr 0 \<and>
   count_symbol paren_idx2symbol '')'' [1] = Inr 1"
  by (simp add: adjust_parens_def paren_idx2symbol_def)

text \<open>
  Claim C10. \<open>prepare_ext_vocab\<close> returns for every well-formed source vocabulary, and
  when it returns, the object \<open>src_vocab\<close> and every other object of the store hold the
  values they held before: the returned \<open>oov_dict\<close> is a new object, and of the graph
  only the node feature \<open>token_id_oov\<close> has changed.
\<close>

theorem prepare_ext_vocab_frame:
  assumes "src_vocab < length h"
  shows "(wf_vocab (h ! src_vocab) \<longrightarrow> (\<exists>r. prepare_ext_vocab h batch_graph src_vocab = Inr r)) \<and>
         (\<forall>h' g' oov_dict. prepare_ext_vocab h batch_graph src_vocab = Inr (h', g', oov_dict) \<longrightarrow>
            oov_dict = length h \<and> length h' = Suc (length h) \<and> take (length h) h' = h \<and>
            h' ! src_vocab = h ! src_vocab \<and>
            node_attributes g' = node_attributes batch_graph \<and>
            (\<forall>k. k \<noteq> ''token_id_oov'' \<longrightarrow> node_features g' k = node_features batch_graph k))"
proof -
  let ?h1 = "h @ [h ! src_vocab]"
  let ?ns = "node_attributes batch_graph"
  have loop: "ext_loop ?h1 (length h) ?ns [] =
      (case visit_all (h ! src_vocab) ?ns [] of Inl e \<Rightarrow> Inl e
       | Inr (v', tm') \<Rightarrow> Inr (h @ [v'], tm'))"
    by (rule ext_loop_copy)
  have total: "\<exists>r. prepare_ext_vocab h batch_graph src_vocab = Inr r" if "wf_vocab (h ! src_vocab)"
  proof -
    from visit_all_wf [OF that, of ?ns "[]"] obtain v' new where
      "visit_all (h ! src_vocab) ?ns [] = Inr (v', new)" by auto
    then show ?thesis by (simp add: prepare_ext_vocab_def deepcopy_def loop)
  qed
  have frame: "oov_dict = length h \<and> length h' = Suc (length h) \<and> take (length h) h' = h \<and>
            h' ! src_vocab = h ! src_vocab \<and>
            node_attributes g' = node_attributes batch_graph \<and>
            (\<forall>k. k \<noteq> ''token_id_oov'' \<longrightarrow> node_features g' k = node_features batch_graph k)"
    if "prepare_ext_vocab h batch_graph src_vocab = Inr (h', g', oov_dict)" for h' g' oov_dict
    using that assms
    by (auto simp: prepare_ext_vocab_def deepcopy_def loop nth_append split: sum.splits prod.splits)
  from total frame show ?thesis by blast
qed

theorem prepare_ext_vocab_frame_witness:
  "(0::nat) < length [unk_vocab] \<and> wf_vocab unk_vocab \<and>
   (case prepare_ext_vocab [unk_vocab] bar_graph 0 of
      Inl e \<Rightarrow> False
    | Inr (h', g', oov_dict) \<Rightarrow>
        oov_dict = 1 \<and> h' ! 0 = unk_vocab \<and> take 1 h' = [unk_vocab] \<and>
        node_attributes g' = node_attributes bar_graph \<and>
        node_features g' ''token_id'' = Some [1, 0, 0])"
proof -
  have a: "(0::nat) < length [unk_vocab]" by simp
  note f = prepare_ext_vocab_frame [OF a, of bar_graph]
  from f wf_unk_vocab obtain r where "prepare_ext_vocab [unk_vocab] bar_graph 0 = Inr r"
    by auto
  then obtain h' g' oov_dict where
    r: "prepare_ext_vocab [unk_vocab] bar_graph 0 = Inr (h', g', oov_dict)"
    by (cases r) auto
  with f have "oov_dict = 1 \<and> h' ! 0 = unk_vocab \<and> take 1 h' = [unk_vocab] \<and>
        node_attributes g' = node_attributes bar_graph \<and>
        node_features g' ''token_id'' = node_features bar_graph ''token_id''"
    by auto
  then show ?thesis using r a wf_unk_vocab by (simp add: bar_graph_def)
qed

section \<open>The loop of the forward pass\<close>























section \<open>The claims about the decoder\<close>





end
